theory Spec2Isabelle
  imports Main "HOL-Library.Signed_Division"
begin

section \<open>The ring of \<^verbatim>\<open>ring.go\<close>: a bounded circular buffer\<close>

text \<open>
  The Go package stores its elements in a slice of \<^verbatim>\<open>interface{}\<close> values that is
  allocated once by \<^verbatim>\<open>New\<close>, and keeps two integers: \<^verbatim>\<open>len\<close>, the number of stored
  elements, and \<^verbatim>\<open>head\<close>, the index of the next element to be extracted.

  An \<^verbatim>\<open>interface{}\<close> value is either \<^verbatim>\<open>nil\<close> or holds a value, so a slot is an
  \<open>'a option\<close> with \<open>None\<close> for \<^verbatim>\<open>nil\<close>. The caller of \<^verbatim>\<open>Insert\<close> may pass \<^verbatim>\<open>nil\<close> too.

  Go's \<^verbatim>\<open>int\<close> is modelled by \<open>int\<close>. In every state the theorems below speak about,
  \<^verbatim>\<open>len\<close> and \<^verbatim>\<open>head\<close> lie between 0 and the capacity of the slice, and the largest
  number the code computes is \<^verbatim>\<open>head + len\<close>, below twice the capacity; a slice of
  two-word interface values is far shorter than half the range of \<^verbatim>\<open>int\<close>, so no
  addition of the code wraps around there.

  The methods mutate the ring behind a pointer: each one is a function from the ring to
  its result and the ring it leaves. The run-time panics of Go that the code can raise
  (an index out of range, a remainder by zero, a slice too long to be made) are values of
  the type \<open>panic\<close>; a function that panics returns \<open>Inl\<close> of it and nothing else. The mutex is held from the first
  to the last statement of every exported method and has no effect on what a single
  thread computes: it is not part of the state below.
\<close>

type_synonym 'a iface = "'a option"

record 'a Ring =
  buf :: "'a iface list"
  len :: int
  head :: int

datatype panic = IndexOutOfRange | DivideByZero | MakesliceLenOutOfRange

text \<open>
  The error of \<^verbatim>\<open>New\<close> is \<^verbatim>\<open>fmt.Errorf("ring capacity must be > 0, got %d", cap)\<close>:
  the format string and its arguments, which the model keeps apart.
\<close>

datatype error = Errorf string "int list"

subsection \<open>The operations of Go that the code uses\<close>

text \<open>\<^verbatim>\<open>cap(r.buf)\<close>; the slice is never resliced, so its capacity is its length.\<close>

definition cap :: "'a Ring \<Rightarrow> int" where
  "cap r = int (length (buf r))"

text \<open>\<^verbatim>\<open>a % b\<close> truncates towards zero and panics when \<open>b\<close> is zero.\<close>

definition go_rem :: "int \<Rightarrow> int \<Rightarrow> panic + int" where
  "go_rem a b = (if b = 0 then Inl DivideByZero else Inr (a smod b))"

text \<open>\<^verbatim>\<open>s[i]\<close> as a value, and \<^verbatim>\<open>s[i] = v\<close>; both panic when \<open>i\<close> is out of range.\<close>

definition index :: "'a list \<Rightarrow> int \<Rightarrow> panic + 'a" where
  "index s i = (if 0 \<le> i \<and> i < int (length s) then Inr (s ! nat i) else Inl IndexOutOfRange)"

definition assign :: "'a list \<Rightarrow> int \<Rightarrow> 'a \<Rightarrow> panic + 'a list" where
  "assign s i v = (if 0 \<le> i \<and> i < int (length s) then Inr (s[nat i := v]) else Inl IndexOutOfRange)"

text \<open>
  \<^verbatim>\<open>make([]interface{}, n)\<close> returns \<open>n\<close> slots that hold \<^verbatim>\<open>nil\<close>, and panics with
  \<^verbatim>\<open>makeslice: len out of range\<close> when \<open>n\<close> is negative or the slice would be larger than
  the run time allocates. That limit belongs to the Go run time of the platform and not to
  the package, so the model takes it as the parameter \<open>maxlen\<close>: the largest length of a
  slice of interface values that \<^verbatim>\<open>make\<close> accepts (the allocation limit in bytes divided by
  the 16 bytes of an interface value; \<open>2 ^ 44\<close> where the limit is \<open>2 ^ 48\<close> bytes, as on
  64-bit Linux).
\<close>

definition make_slice :: "int \<Rightarrow> int \<Rightarrow> panic + 'a iface list" where
  "make_slice maxlen n =
     (if n < 0 \<or> maxlen < n then Inl MakesliceLenOutOfRange else Inr (replicate (nat n) None))"

subsection \<open>The package\<close>

text \<open>
  \<^verbatim>\<open>New\<close> returns a ring or an error, unless \<^verbatim>\<open>make\<close> panics: the check of the capacity
  comes first, then the allocation.
\<close>

definition New :: "int \<Rightarrow> int \<Rightarrow> panic + (error + 'a Ring)" where
  "New maxlen c =
     (if c < 1 then Inr (Inl (Errorf ''ring capacity must be > 0, got %d'' [c]))
      else case make_slice maxlen c of
        Inl p \<Rightarrow> Inl p
      | Inr b \<Rightarrow> Inr (Inr \<lparr>buf = b, len = 0, head = 0\<rparr>))"

definition tail :: "'a Ring \<Rightarrow> panic + int" where
  "tail r = go_rem (head r + len r) (cap r)"

text \<open>The unexported \<^verbatim>\<open>extract\<close>, which \<^verbatim>\<open>Extract\<close> and \<^verbatim>\<open>Insert\<close> call with the lock held.\<close>

definition extract_ring :: "'a Ring \<Rightarrow> panic + ('a iface \<times> bool) \<times> 'a Ring" where
  "extract_ring r =
     (if len r = 0 then Inr ((None, False), r)
      else case index (buf r) (head r) of
        Inl p \<Rightarrow> Inl p
      | Inr result \<Rightarrow>
          (case go_rem (head r + 1) (cap r) of
             Inl p \<Rightarrow> Inl p
           | Inr h \<Rightarrow> Inr ((result, True), r\<lparr>head := h, len := len r - 1\<rparr>)))"

definition Extract :: "'a Ring \<Rightarrow> panic + ('a iface \<times> bool) \<times> 'a Ring" where
  "Extract r = extract_ring r"

definition Insert :: "'a Ring \<Rightarrow> 'a iface \<Rightarrow> panic + 'a Ring" where
  "Insert r v =
     (case (if len r = cap r
            then (case extract_ring r of Inl p \<Rightarrow> Inl p | Inr (_, r1) \<Rightarrow> Inr r1)
            else Inr r) of
        Inl p \<Rightarrow> Inl p
      | Inr r1 \<Rightarrow>
          (case tail r1 of
             Inl p \<Rightarrow> Inl p
           | Inr t \<Rightarrow>
               (case assign (buf r1) t v of
                  Inl p \<Rightarrow> Inl p
                | Inr b \<Rightarrow> Inr (r1\<lparr>buf := b, len := len r1 + 1\<rparr>))))"

definition Peek :: "'a Ring \<Rightarrow> panic + ('a iface \<times> bool) \<times> 'a Ring" where
  "Peek r =
     (if len r = 0 then Inr ((None, False), r)
      else case index (buf r) (head r) of
        Inl p \<Rightarrow> Inl p
      | Inr x \<Rightarrow> Inr ((x, True), r))"

definition Len :: "'a Ring \<Rightarrow> int \<times> 'a Ring" where
  "Len r = (len r, r)"

subsection \<open>Well-formed rings and the live window\<close>

text \<open>
  The fields of \<^verbatim>\<open>Ring\<close> are unexported, so a client changes a ring through the methods
  only. The states a ring made by \<^verbatim>\<open>New\<close> can be in satisfy \<open>ring_inv\<close>: the capacity is
  positive, \<^verbatim>\<open>len\<close> is between 0 and the capacity, \<^verbatim>\<open>head\<close> is an index of the slice.
\<close>

definition ring_inv :: "'a Ring \<Rightarrow> bool" where
  "ring_inv r = (1 \<le> cap r \<and> 0 \<le> len r \<and> len r \<le> cap r \<and> 0 \<le> head r \<and> head r < cap r)"

text \<open>
  The live window: the \<^verbatim>\<open>len\<close> slots that start at \<^verbatim>\<open>head\<close> and wrap around the end of
  the slice, listed from the oldest to the newest.
\<close>

definition contents :: "'a Ring \<Rightarrow> 'a iface list" where
  "contents r = map (\<lambda>i. buf r ! nat ((head r + int i) mod cap r)) [0..<nat (len r)]"

subsection \<open>Sequences of calls\<close>

text \<open>A client that calls \<^verbatim>\<open>Insert\<close> with each value of a list in turn.\<close>

fun insert_all :: "'a Ring \<Rightarrow> 'a iface list \<Rightarrow> panic + 'a Ring" where
  "insert_all r [] = Inr r"
| "insert_all r (v # vs) = (case Insert r v of Inl p \<Rightarrow> Inl p | Inr r' \<Rightarrow> insert_all r' vs)"

text \<open>A client that calls \<^verbatim>\<open>Extract\<close> \<open>n\<close> times and collects the pairs it returns.\<close>

fun extract_n :: "'a Ring \<Rightarrow> nat \<Rightarrow> panic + ('a iface \<times> bool) list \<times> 'a Ring" where
  "extract_n r 0 = Inr ([], r)"
| "extract_n r (Suc n) =
     (case Extract r of
        Inl p \<Rightarrow> Inl p
      | Inr (x, r') \<Rightarrow>
          (case extract_n r' n of
             Inl p \<Rightarrow> Inl p
           | Inr (xs, r'') \<Rightarrow> Inr (x # xs, r'')))"

text \<open>A client that calls the four exported methods in any order.\<close>

datatype 'a call = CallInsert "'a iface" | CallExtract | CallPeek | CallLen

fun do_call :: "'a Ring \<Rightarrow> 'a call \<Rightarrow> panic + 'a Ring" where
  "do_call r (CallInsert v) = Insert r v"
| "do_call r CallExtract = (case Extract r of Inl p \<Rightarrow> Inl p | Inr (_, r') \<Rightarrow> Inr r')"
| "do_call r CallPeek = (case Peek r of Inl p \<Rightarrow> Inl p | Inr (_, r') \<Rightarrow> Inr r')"
| "do_call r CallLen = Inr (snd (Len r))"

fun do_calls :: "'a Ring \<Rightarrow> 'a call list \<Rightarrow> panic + 'a Ring" where
  "do_calls r [] = Inr r"
| "do_calls r (c # cs) = (case do_call r c of Inl p \<Rightarrow> Inl p | Inr r' \<Rightarrow> do_calls r' cs)"

text \<open>
  The live elements as the specification describes them, with no storage and no indices:
  elements enter with an insert, the oldest one leaves with an extract, or with an insert
  when as many elements as the capacity are live; a peek and a length change nothing.
\<close>

fun spec_live :: "nat \<Rightarrow> 'a iface list \<Rightarrow> 'a call \<Rightarrow> 'a iface list" where
  "spec_live c q (CallInsert v) = (if length q = c then tl q else q) @ [v]"
| "spec_live c q CallExtract = tl q"
| "spec_live c q CallPeek = q"
| "spec_live c q CallLen = q"

definition spec_live_all :: "nat \<Rightarrow> 'a call list \<Rightarrow> 'a iface list" where
  "spec_live_all c cs = foldl (spec_live c) [] cs"

section \<open>Single calls on a well-formed ring\<close>

lemma go_rem_mod: "0 \<le> a \<Longrightarrow> 0 < b \<Longrightarrow> go_rem a b = Inr (a mod b)"
  by (simp add: go_rem_def smod_int_alt_def sgn_if)

lemma index_in_cap: "0 \<le> i \<Longrightarrow> i < cap r \<Longrightarrow> index (buf r) i = Inr (buf r ! nat i)"
  by (simp add: index_def cap_def)

lemma assign_in_cap: "0 \<le> i \<Longrightarrow> i < cap r \<Longrightarrow> assign (buf r) i v = Inr ((buf r)[nat i := v])"
  by (simp add: assign_def cap_def)

lemma cap_update [simp]:
  "cap (r\<lparr>head := h\<rparr>) = cap r" "cap (r\<lparr>len := n\<rparr>) = cap r"
  "cap (r\<lparr>buf := (buf r)[i := v]\<rparr>) = cap r"
  by (simp_all add: cap_def)

lemma ring_inv_pos: "ring_inv r \<Longrightarrow> 0 < cap r"
  by (simp add: ring_inv_def)

lemma extract_ring_nonempty:
  assumes "ring_inv r" "len r \<noteq> 0"
  shows "extract_ring r =
    Inr ((buf r ! nat (head r), True), r\<lparr>head := (head r + 1) mod cap r, len := len r - 1\<rparr>)"
proof -
  have "index (buf r) (head r) = Inr (buf r ! nat (head r))"
    using assms by (intro index_in_cap) (simp_all add: ring_inv_def)
  moreover have "go_rem (head r + 1) (cap r) = Inr ((head r + 1) mod cap r)"
    using assms by (intro go_rem_mod) (simp_all add: ring_inv_def)
  ultimately show ?thesis
    using assms(2) by (simp add: extract_ring_def)
qed

lemma tail_mod:
  assumes "ring_inv r"
  shows "tail r = Inr ((head r + len r) mod cap r)"
  unfolding tail_def using assms by (intro go_rem_mod) (simp_all add: ring_inv_def)

lemma Insert_not_full:
  assumes "ring_inv r" "len r \<noteq> cap r"
  shows "Insert r v =
    Inr (r\<lparr>buf := (buf r)[nat ((head r + len r) mod cap r) := v], len := len r + 1\<rparr>)"
proof -
  have "assign (buf r) ((head r + len r) mod cap r) v
      = Inr ((buf r)[nat ((head r + len r) mod cap r) := v])"
    using ring_inv_pos [OF assms(1)] by (intro assign_in_cap) simp_all
  then show ?thesis
    using assms by (simp add: Insert_def tail_mod)
qed

lemma ring_inv_extract:
  assumes "ring_inv r" "len r \<noteq> 0"
  shows "ring_inv (r\<lparr>head := (head r + 1) mod cap r, len := len r - 1\<rparr>)"
  using assms by (simp add: ring_inv_def)

lemma ring_inv_insert:
  assumes "ring_inv r" "len r \<noteq> cap r"
  shows "ring_inv (r\<lparr>buf := (buf r)[i := v], len := len r + 1\<rparr>)"
  using assms by (simp add: ring_inv_def cap_def)

text \<open>On a full ring \<^verbatim>\<open>Insert\<close> is \<^verbatim>\<open>Insert\<close> on the ring that \<^verbatim>\<open>extract\<close> leaves.\<close>

lemma Insert_full_evicts:
  assumes "ring_inv r" "len r = cap r"
  shows "Insert r v = Insert (r\<lparr>head := (head r + 1) mod cap r, len := len r - 1\<rparr>) v"
proof -
  have nz: "len r \<noteq> 0" using assms ring_inv_pos [OF assms(1)] by simp
  show ?thesis
    using assms(2) by (simp add: Insert_def extract_ring_nonempty [OF assms(1) nz])
qed

section \<open>The live window under a call\<close>

lemma length_contents [simp]: "length (contents r) = nat (len r)"
  by (simp add: contents_def)

lemma mod_window_inj:
  fixes h c :: int
  assumes "(h + i) mod c = (h + j) mod c" "0 \<le> i" "i < c" "0 \<le> j" "j < c"
  shows "i = j"
proof -
  have "i mod c = j mod c"
    using assms(1) by (metis mod_add_cong add_diff_cancel_left' mod_diff_cong)
  then show ?thesis using assms by simp
qed

lemma contents_extract:
  assumes "ring_inv r" "len r \<noteq> 0"
  shows "contents (r\<lparr>head := (head r + 1) mod cap r, len := len r - 1\<rparr>) = tl (contents r)"
    and "hd (contents r) = buf r ! nat (head r)"
    and "contents r \<noteq> []"
proof -
  have pos: "0 < len r" "head r < cap r" "0 \<le> head r" using assms by (simp_all add: ring_inv_def)
  then obtain n where n: "nat (len r) = Suc n" by (cases "nat (len r)") simp_all
  then have n': "nat (len r - 1) = n" by simp
  have step: "((head r + 1) mod cap r + int i) mod cap r = (head r + int (Suc i)) mod cap r" for i
  proof -
    have "((head r + 1) mod cap r + int i) mod cap r = (head r + 1 + int i) mod cap r"
      by (simp only: mod_add_left_eq)
    also have "head r + 1 + int i = head r + int (Suc i)" by simp
    finally show ?thesis .
  qed
  have "[0..<Suc n] = 0 # map Suc [0..<n]"
    by (simp add: upt_conv_Cons map_Suc_upt del: upt_Suc)
  then have c: "contents r = buf r ! nat (head r mod cap r)
      # map (\<lambda>i. buf r ! nat ((head r + int (Suc i)) mod cap r)) [0..<n]"
    by (simp add: contents_def n comp_def del: upt_Suc)
  show "contents (r\<lparr>head := (head r + 1) mod cap r, len := len r - 1\<rparr>) = tl (contents r)"
    unfolding c by (simp add: contents_def n' step del: of_nat_Suc)
  show "hd (contents r) = buf r ! nat (head r)"
    unfolding c using pos by simp
  show "contents r \<noteq> []" unfolding c by simp
qed

lemma contents_insert:
  assumes "ring_inv r" "len r \<noteq> cap r"
  shows "contents (r\<lparr>buf := (buf r)[nat ((head r + len r) mod cap r) := v], len := len r + 1\<rparr>)
    = contents r @ [v]"
proof -
  have b: "0 \<le> len r" "len r < cap r" "0 < cap r" using assms by (simp_all add: ring_inv_def)
  let ?t = "nat ((head r + len r) mod cap r)"
  have t: "?t < length (buf r)"
    using b by (simp add: cap_def nat_less_iff)
  have n: "nat (len r + 1) = Suc (nat (len r))" using b by simp
  have other: "(buf r)[?t := v] ! nat ((head r + int i) mod cap r)
      = buf r ! nat ((head r + int i) mod cap r)" if "i < nat (len r)" for i
  proof -
    have "int i < len r" using that by simp
    then have "(head r + int i) mod cap r \<noteq> (head r + len r) mod cap r"
      using mod_window_inj [of "head r" "int i" "cap r" "len r"] b by auto
    then have "nat ((head r + int i) mod cap r) \<noteq> ?t"
      using b by (simp add: nat_eq_iff)
    then show ?thesis by simp
  qed
  show ?thesis
    using t other b by (simp add: contents_def n)
qed

section \<open>What each call does to the live window\<close>

lemma Insert_ok:
  assumes "ring_inv r"
  shows "\<exists>r'. Insert r v = Inr r' \<and> ring_inv r' \<and> cap r' = cap r
    \<and> contents r' = (if len r = cap r then tl (contents r) else contents r) @ [v]"
proof (cases "len r = cap r")
  case False
  let ?r' = "r\<lparr>buf := (buf r)[nat ((head r + len r) mod cap r) := v], len := len r + 1\<rparr>"
  have "Insert r v = Inr ?r'" by (rule Insert_not_full [OF assms False])
  moreover have "ring_inv ?r'" by (rule ring_inv_insert [OF assms False])
  moreover have "cap ?r' = cap r" by (simp add: cap_def)
  moreover have "contents ?r' = contents r @ [v]" by (rule contents_insert [OF assms False])
  ultimately show ?thesis using False by simp
next
  case True
  let ?r1 = "r\<lparr>head := (head r + 1) mod cap r, len := len r - 1\<rparr>"
  let ?r' = "?r1\<lparr>buf := (buf ?r1)[nat ((head ?r1 + len ?r1) mod cap ?r1) := v], len := len ?r1 + 1\<rparr>"
  have nz: "len r \<noteq> 0" using True ring_inv_pos [OF assms] by simp
  have inv1: "ring_inv ?r1" by (rule ring_inv_extract [OF assms nz])
  have nf: "len ?r1 \<noteq> cap ?r1" using True by simp
  have "Insert r v = Insert ?r1 v" by (rule Insert_full_evicts [OF assms True])
  also have "\<dots> = Inr ?r'" by (rule Insert_not_full [OF inv1 nf])
  finally have "Insert r v = Inr ?r'" .
  moreover have "ring_inv ?r'" by (rule ring_inv_insert [OF inv1 nf])
  moreover have "cap ?r' = cap r" by (simp add: cap_def)
  moreover have "contents ?r' = tl (contents r) @ [v]"
    using contents_insert [OF inv1 nf, of v] contents_extract(1) [OF assms nz] by simp
  ultimately show ?thesis using True by simp
qed

lemma Extract_ok:
  assumes "ring_inv r"
  shows "\<exists>r'. Extract r = Inr ((if len r = 0 then (None, False) else (hd (contents r), True)), r')
    \<and> ring_inv r' \<and> cap r' = cap r \<and> contents r' = tl (contents r)"
proof (cases "len r = 0")
  case True
  then show ?thesis using assms by (simp add: Extract_def extract_ring_def contents_def)
next
  case False
  let ?r' = "r\<lparr>head := (head r + 1) mod cap r, len := len r - 1\<rparr>"
  have "Extract r = Inr ((hd (contents r), True), ?r')"
    using extract_ring_nonempty [OF assms False] contents_extract(2) [OF assms False]
    by (simp add: Extract_def)
  moreover have "ring_inv ?r'" by (rule ring_inv_extract [OF assms False])
  moreover have "contents ?r' = tl (contents r)" by (rule contents_extract(1) [OF assms False])
  ultimately show ?thesis using False by simp
qed

lemma Peek_ok:
  assumes "ring_inv r"
  shows "Peek r = Inr ((if len r = 0 then (None, False) else (hd (contents r), True)), r)"
proof (cases "len r = 0")
  case True
  then show ?thesis by (simp add: Peek_def)
next
  case False
  have "index (buf r) (head r) = Inr (buf r ! nat (head r))"
    using assms by (intro index_in_cap) (simp_all add: ring_inv_def)
  then show ?thesis
    using False contents_extract(2) [OF assms False] by (simp add: Peek_def)
qed

lemma New_ok:
  assumes "1 \<le> c"
  shows "c \<le> maxlen \<Longrightarrow>
      New maxlen c = Inr (Inr \<lparr>buf = replicate (nat c) None, len = 0, head = 0\<rparr>)"
    and "ring_inv (\<lparr>buf = replicate (nat c) None, len = 0, head = 0\<rparr> :: 'a Ring)"
    and "cap (\<lparr>buf = replicate (nat c) None, len = 0, head = 0\<rparr> :: 'a Ring) = c"
    and "contents (\<lparr>buf = replicate (nat c) None, len = 0, head = 0\<rparr> :: 'a Ring) = []"
  using assms by (simp_all add: New_def make_slice_def ring_inv_def cap_def contents_def)

section \<open>Sequences of calls on a well-formed ring\<close>

lemma insert_all_ok:
  assumes "ring_inv r"
  shows "\<exists>r'. insert_all r vs = Inr r' \<and> ring_inv r' \<and> cap r' = cap r
    \<and> contents r' = drop (nat (len r) + length vs - nat (cap r)) (contents r @ vs)"
  using assms
proof (induction vs arbitrary: r)
  case Nil
  then have "nat (len r) - nat (cap r) = 0" by (auto simp: ring_inv_def)
  then show ?case using Nil by simp
next
  case (Cons v vs)
  from Insert_ok [OF Cons.prems, of v] obtain r1 where
    r1: "Insert r v = Inr r1" "ring_inv r1" "cap r1 = cap r"
      "contents r1 = (if len r = cap r then tl (contents r) else contents r) @ [v]"
    by blast
  from Cons.IH [OF r1(2)] obtain r' where
    r': "insert_all r1 vs = Inr r'" "ring_inv r'" "cap r' = cap r1"
      "contents r' = drop (nat (len r1) + length vs - nat (cap r1)) (contents r1 @ vs)"
    by blast
  have l1: "nat (len r1) = length (contents r1)" by simp
  have "drop (nat (len r1) + length vs - nat (cap r1)) (contents r1 @ vs)
      = drop (nat (len r) + length (v # vs) - nat (cap r)) (contents r @ v # vs)"
  proof (cases "len r = cap r")
    case False
    then have "len r < cap r" "0 \<le> len r" using Cons.prems by (simp_all add: ring_inv_def)
    then show ?thesis unfolding l1 r1(3) r1(4) using False by simp
  next
    case True
    have ne: "contents r \<noteq> []"
      using True ring_inv_pos [OF Cons.prems] by (intro contents_extract(3) [OF Cons.prems]) simp
    have "length (tl (contents r) @ [v]) = nat (cap r)"
      using True ring_inv_pos [OF Cons.prems] by simp
    then have "drop (nat (len r1) + length vs - nat (cap r1)) (contents r1 @ vs)
        = drop (length vs) (tl (contents r) @ v # vs)"
      unfolding l1 r1(3) r1(4) using True by simp
    also have "\<dots> = drop (Suc (length vs)) (contents r @ v # vs)"
      using ne by (cases "contents r") simp_all
    finally show ?thesis using True by simp
  qed
  then show ?case using r1 r' by simp
qed

lemma extract_n_ok:
  assumes "ring_inv r"
  shows "\<exists>r'. extract_n r n =
      Inr (map (\<lambda>x. (x, True)) (take n (contents r)) @ replicate (n - nat (len r)) (None, False), r')
    \<and> ring_inv r' \<and> cap r' = cap r \<and> contents r' = drop n (contents r)"
  using assms
proof (induction n arbitrary: r)
  case 0
  then show ?case by simp
next
  case (Suc n)
  from Extract_ok [OF Suc.prems] obtain r1 where
    r1: "Extract r = Inr ((if len r = 0 then (None, False) else (hd (contents r), True)), r1)"
      "ring_inv r1" "cap r1 = cap r" "contents r1 = tl (contents r)"
    by blast
  from Suc.IH [OF r1(2)] obtain r' where
    r': "extract_n r1 n =
      Inr (map (\<lambda>x. (x, True)) (take n (contents r1)) @ replicate (n - nat (len r1)) (None, False), r')"
      "ring_inv r'" "cap r' = cap r1" "contents r' = drop n (contents r1)"
    by blast
  have l1: "nat (len r1) = nat (len r) - 1"
    using arg_cong [OF r1(4), of length] by simp
  let ?f = "\<lambda>x::'a iface. (x, True)"
  have res: "(if len r = 0 then (None, False) else (hd (contents r), True))
      # (map ?f (take n (contents r1)) @ replicate (n - nat (len r1)) (None, False))
    = map ?f (take (Suc n) (contents r)) @ replicate (Suc n - nat (len r)) (None, False)"
  proof (cases "len r = 0")
    case True
    then have "contents r = []" by (simp add: contents_def)
    then show ?thesis unfolding r1(4) l1 using True by simp
  next
    case False
    then have pos: "0 < nat (len r)" using Suc.prems by (simp add: ring_inv_def)
    have "contents r \<noteq> []" by (rule contents_extract(3) [OF Suc.prems False])
    then obtain x xs where c: "contents r = x # xs" by (cases "contents r") simp_all
    have d: "Suc n - nat (len r) = n - (nat (len r) - 1)" using pos by arith
    show ?thesis unfolding r1(4) l1 d c using False by simp
  qed
  have "extract_n r (Suc n)
      = Inr (map ?f (take (Suc n) (contents r)) @ replicate (Suc n - nat (len r)) (None, False), r')"
    unfolding res [symmetric] by (simp add: r1(1) r'(1))
  moreover have "contents r' = drop (Suc n) (contents r)"
    unfolding r'(4) r1(4) by (simp add: drop_Suc drop_tl)
  ultimately show ?case using r'(2) r'(3) r1(3) by simp
qed

section \<open>Any sequence of calls, and the slot that Insert writes\<close>

lemma full_iff: "ring_inv r \<Longrightarrow> (length (contents r) = nat (cap r)) = (len r = cap r)"
  by (auto simp: ring_inv_def)

lemma do_call_ok:
  assumes "ring_inv r"
  shows "\<exists>r'. do_call r c = Inr r' \<and> ring_inv r' \<and> cap r' = cap r
    \<and> contents r' = spec_live (nat (cap r)) (contents r) c"
proof (cases c)
  case (CallInsert v)
  from Insert_ok [OF assms, of v] show ?thesis
    unfolding CallInsert by (simp only: do_call.simps spec_live.simps full_iff [OF assms])
next
  case CallExtract
  from Extract_ok [OF assms] show ?thesis
    unfolding CallExtract by auto
next
  case CallPeek
  then show ?thesis using Peek_ok [OF assms] assms by simp
next
  case CallLen
  then show ?thesis using assms by (simp add: Len_def)
qed

lemma do_calls_ok:
  assumes "ring_inv r"
  shows "\<exists>r'. do_calls r cs = Inr r' \<and> ring_inv r' \<and> cap r' = cap r
    \<and> contents r' = foldl (spec_live (nat (cap r))) (contents r) cs"
  using assms
proof (induction cs arbitrary: r)
  case Nil
  then show ?case by simp
next
  case (Cons c cs)
  from do_call_ok [OF Cons.prems, of c] obtain r1 where
    r1: "do_call r c = Inr r1" "ring_inv r1" "cap r1 = cap r"
      "contents r1 = spec_live (nat (cap r)) (contents r) c"
    by blast
  from Cons.IH [OF r1(2)] show ?case
    by (simp add: r1)
qed

lemma tail_after_evict:
  "((head r + 1) mod cap r + (len r - 1)) mod cap r = (head r + len r) mod cap r"
proof -
  have "((head r + 1) mod cap r + (len r - 1)) mod cap r = (head r + 1 + (len r - 1)) mod cap r"
    by (simp only: mod_add_left_eq)
  also have "head r + 1 + (len r - 1) = head r + len r" by simp
  finally show ?thesis .
qed

lemma Insert_writes_tail:
  assumes "ring_inv r"
  shows "\<exists>r'. Insert r v = Inr r' \<and> buf r' = (buf r)[nat ((head r + len r) mod cap r) := v]
    \<and> len r' = (if len r = cap r then cap r else len r + 1)
    \<and> head r' = (if len r = cap r then (head r + 1) mod cap r else head r)"
proof (cases "len r = cap r")
  case False
  show ?thesis
    using False by (simp add: Insert_not_full [OF assms False])
next
  case True
  let ?r1 = "r\<lparr>head := (head r + 1) mod cap r, len := len r - 1\<rparr>"
  have nz: "len r \<noteq> 0" using True ring_inv_pos [OF assms] by simp
  have inv1: "ring_inv ?r1" by (rule ring_inv_extract [OF assms nz])
  have nf: "len ?r1 \<noteq> cap ?r1" using True by simp
  let ?r' = "?r1\<lparr>buf := (buf ?r1)[nat ((head ?r1 + len ?r1) mod cap ?r1) := v], len := len ?r1 + 1\<rparr>"
  have "Insert r v = Insert ?r1 v" by (rule Insert_full_evicts [OF assms True])
  also have "\<dots> = Inr ?r'" by (rule Insert_not_full [OF inv1 nf])
  finally have "Insert r v = Inr ?r'" .
  moreover have "buf ?r' = (buf r)[nat ((head r + len r) mod cap r) := v]"
    by (simp add: tail_after_evict)
  moreover have "len ?r' = cap r" "head ?r' = (head r + 1) mod cap r"
    using True by simp_all
  ultimately show ?thesis
    using True by (intro exI [of _ ?r']) (simp only: if_True simp_thms)
qed

text \<open>
  The zero value of \<^verbatim>\<open>Ring\<close>, which a client can declare without \<^verbatim>\<open>New\<close>, has capacity 0
  and is not well-formed: \<^verbatim>\<open>Insert\<close> on it computes a remainder by zero and panics.
\<close>

lemma Insert_zero_value: "Insert \<lparr>buf = [], len = 0, head = 0\<rparr> v = Inl DivideByZero"
  by (simp add: Insert_def extract_ring_def tail_def go_rem_def cap_def)

text \<open>The definitions that evaluate a call on a concrete ring.\<close>

lemmas ring_eval = Insert_def Extract_def extract_ring_def Peek_def Len_def tail_def go_rem_def
  index_def assign_def cap_def smod_int_alt_def ring_inv_def contents_def

section \<open>The claims\<close>

text \<open>
  Claim C1 (first in, first out). On a well-formed ring with room for the values \<open>vs\<close>
  (so that no insert evicts), inserting \<open>vs\<close> and then calling \<^verbatim>\<open>Extract\<close> once for every
  element held returns the elements in the order of their insertion, each with the flag
  true, and leaves the ring empty. On an empty ring of capacity \<open>C\<close>, a new one for example,
  and at most \<open>C\<close> values, the extracts return exactly the inserted values in order.
\<close>

theorem fifo_order:
  assumes "ring_inv r" and "len r + int (length vs) \<le> cap r"
  shows "\<exists>r1 r2. insert_all r vs = Inr r1
    \<and> extract_n r1 (nat (len r) + length vs) = Inr (map (\<lambda>x. (x, True)) (contents r @ vs), r2)
    \<and> (len r = 0 \<longrightarrow> extract_n r1 (length vs) = Inr (map (\<lambda>x. (x, True)) vs, r2))
    \<and> len r2 = 0"
proof -
  from insert_all_ok [OF assms(1), of vs] obtain r1 where
    r1: "insert_all r vs = Inr r1" "ring_inv r1" "cap r1 = cap r"
      "contents r1 = drop (nat (len r) + length vs - nat (cap r)) (contents r @ vs)"
    by blast
  have "nat (len r) + length vs - nat (cap r) = 0"
    using assms by (auto simp: ring_inv_def)
  then have c1: "contents r1 = contents r @ vs"
    using r1(4) by simp
  have "length (contents r1) = length (contents r @ vs)"
    by (simp only: c1)
  then have l1: "nat (len r1) = nat (len r) + length vs"
    by simp
  from extract_n_ok [OF r1(2), of "nat (len r) + length vs"] obtain r2 where
    r2: "extract_n r1 (nat (len r) + length vs) =
        Inr (map (\<lambda>x. (x, True)) (take (nat (len r) + length vs) (contents r1))
          @ replicate (nat (len r) + length vs - nat (len r1)) (None, False), r2)"
      "ring_inv r2" "contents r2 = drop (nat (len r) + length vs) (contents r1)"
    by blast
  have e: "extract_n r1 (nat (len r) + length vs) = Inr (map (\<lambda>x. (x, True)) (contents r @ vs), r2)"
    using r2(1) unfolding l1 c1 by simp
  have "contents r2 = []" using r2(3) unfolding c1 by simp
  then have "length (contents r2) = 0" by (simp only: list.size)
  then have "nat (len r2) = 0" by simp
  then have z: "len r2 = 0" using r2(2) by (simp add: ring_inv_def)
  have "contents r = []" if "len r = 0"
    using that by (simp add: contents_def)
  then have "len r = 0 \<longrightarrow> extract_n r1 (length vs) = Inr (map (\<lambda>x. (x, True)) vs, r2)"
    using e by auto
  then show ?thesis using r1(1) e z by (intro exI [of _ r1] exI [of _ r2] conjI)
qed

theorem fifo_order_witness:
  "ring_inv \<lparr>buf = [Some (9::int), Some 8, Some 7], len = 0, head = 2\<rparr>
   \<and> len \<lparr>buf = [Some (9::int), Some 8, Some 7], len = 0, head = 2\<rparr>
        + int (length [Some (1::int), Some 2, Some 3])
      \<le> cap \<lparr>buf = [Some (9::int), Some 8, Some 7], len = 0, head = 2\<rparr>
   \<and> insert_all \<lparr>buf = [Some (9::int), Some 8, Some 7], len = 0, head = 2\<rparr> [Some 1, Some 2, Some 3]
      = Inr \<lparr>buf = [Some 2, Some 3, Some 1], len = 3, head = 2\<rparr>
   \<and> extract_n \<lparr>buf = [Some (2::int), Some 3, Some 1], len = 3, head = 2\<rparr> 3
      = Inr ([(Some 1, True), (Some 2, True), (Some 3, True)],
             \<lparr>buf = [Some 2, Some 3, Some 1], len = 0, head = 2\<rparr>)"
proof -
  let ?r = "\<lparr>buf = [Some (9::int), Some 8, Some 7], len = 0, head = 2\<rparr>"
  let ?vs = "[Some (1::int), Some 2, Some 3]"
  have inv: "ring_inv ?r" by (simp add: ring_inv_def cap_def)
  have room: "len ?r + int (length ?vs) \<le> cap ?r" by (simp add: cap_def)
  have ins: "insert_all ?r ?vs = Inr \<lparr>buf = [Some 2, Some 3, Some 1], len = 3, head = 2\<rparr>"
    by (simp add: ring_eval)
  have ext: "extract_n \<lparr>buf = [Some (2::int), Some 3, Some 1], len = 3, head = 2\<rparr> 3
      = Inr ([(Some 1, True), (Some 2, True), (Some 3, True)],
             \<lparr>buf = [Some 2, Some 3, Some 1], len = 0, head = 2\<rparr>)"
    by (simp add: ring_eval eval_nat_numeral)
  from fifo_order [OF inv room] show ?thesis
    by (simp only: inv room ins ext simp_thms)
qed

text \<open>
  Claim C2 (eviction). On a full well-formed ring of capacity \<open>C\<close> one \<^verbatim>\<open>Insert\<close> drops the
  oldest live element, appends the new one and leaves \<^verbatim>\<open>Len\<close> at \<open>C\<close>. After inserting the
  values \<open>vs\<close> with no extraction the live elements are the last \<open>C\<close> of the elements that
  were live followed by \<open>vs\<close>, from the oldest to the newest, and \<^verbatim>\<open>Len\<close> is \<open>C\<close>.
\<close>

theorem eviction:
  assumes "ring_inv r" and "len r = cap r"
  shows "(\<exists>r'. Insert r v = Inr r' \<and> contents r' = tl (contents r) @ [v]
            \<and> cap r' = cap r \<and> fst (Len r') = cap r)
    \<and> (\<exists>r'. insert_all r vs = Inr r' \<and> cap r' = cap r \<and> fst (Len r') = cap r
            \<and> contents r' = drop (length (contents r @ vs) - nat (cap r)) (contents r @ vs))"
proof -
  have pos: "0 < cap r" by (rule ring_inv_pos [OF assms(1)])
  have full: "len q = cap r"
    if "ring_inv q" "cap q = cap r" "length (contents q) = nat (cap r)" for q :: "'a Ring"
    using full_iff [OF that(1)] that(2,3) by simp
  from Insert_ok [OF assms(1), of v] obtain r1 where
    r1: "Insert r v = Inr r1" "ring_inv r1" "cap r1 = cap r"
      "contents r1 = (if len r = cap r then tl (contents r) else contents r) @ [v]"
    by blast
  have c1: "contents r1 = tl (contents r) @ [v]"
    by (simp only: r1(4) assms(2) if_True refl simp_thms)
  have "length (tl (contents r) @ [v]) = nat (cap r)"
    using pos by (simp add: assms(2))
  then have "len r1 = cap r"
    by (intro full [OF r1(2) r1(3)]) (simp only: c1)
  then have one: "fst (Len r1) = cap r" by (simp add: Len_def)
  from insert_all_ok [OF assms(1), of vs] obtain r2 where
    r2: "insert_all r vs = Inr r2" "ring_inv r2" "cap r2 = cap r"
      "contents r2 = drop (nat (len r) + length vs - nat (cap r)) (contents r @ vs)"
    by blast
  have d: "nat (len r) + length vs - nat (cap r) = length (contents r @ vs) - nat (cap r)"
    by simp
  have c2: "contents r2 = drop (length (contents r @ vs) - nat (cap r)) (contents r @ vs)"
    by (simp only: r2(4) d)
  have "length (drop (length (contents r @ vs) - nat (cap r)) (contents r @ vs)) = nat (cap r)"
    by (simp add: assms(2))
  then have "len r2 = cap r"
    by (intro full [OF r2(2) r2(3)]) (simp only: c2)
  then have many: "fst (Len r2) = cap r" by (simp add: Len_def)
  show ?thesis
    using r1(1) c1 r1(3) one r2(1) r2(3) many c2 by blast
qed

theorem eviction_witness:
  "ring_inv \<lparr>buf = [Some (1::int), Some 2, Some 3, Some 4], len = 4, head = 0\<rparr>
   \<and> len \<lparr>buf = [Some (1::int), Some 2, Some 3, Some 4], len = 4, head = 0\<rparr>
      = cap \<lparr>buf = [Some (1::int), Some 2, Some 3, Some 4], len = 4, head = 0\<rparr>
   \<and> Insert \<lparr>buf = [Some (1::int), Some 2, Some 3, Some 4], len = 4, head = 0\<rparr> (Some 5)
      = Inr \<lparr>buf = [Some 5, Some 2, Some 3, Some 4], len = 4, head = 1\<rparr>
   \<and> contents \<lparr>buf = [Some (5::int), Some 2, Some 3, Some 4], len = 4, head = 1\<rparr>
      = [Some 2, Some 3, Some 4, Some 5]
   \<and> insert_all \<lparr>buf = [Some (1::int), Some 2, Some 3, Some 4], len = 4, head = 0\<rparr>
        [Some 5, Some 6, Some 7, Some 8]
      = Inr \<lparr>buf = [Some 5, Some 6, Some 7, Some 8], len = 4, head = 0\<rparr>
   \<and> contents \<lparr>buf = [Some (5::int), Some 6, Some 7, Some 8], len = 4, head = 0\<rparr>
      = [Some 5, Some 6, Some 7, Some 8]"
proof -
  let ?r = "\<lparr>buf = [Some (1::int), Some 2, Some 3, Some 4], len = 4, head = 0\<rparr>"
  have inv: "ring_inv ?r" by (simp add: ring_inv_def cap_def)
  have full: "len ?r = cap ?r" by (simp add: cap_def)
  have one: "Insert ?r (Some 5) = Inr \<lparr>buf = [Some 5, Some 2, Some 3, Some 4], len = 4, head = 1\<rparr>"
    by (simp add: ring_eval)
  have c1: "contents \<lparr>buf = [Some (5::int), Some 2, Some 3, Some 4], len = 4, head = 1\<rparr>
      = [Some 2, Some 3, Some 4, Some 5]"
    by (simp add: contents_def cap_def eval_nat_numeral)
  have many: "insert_all ?r [Some 5, Some 6, Some 7, Some 8]
      = Inr \<lparr>buf = [Some 5, Some 6, Some 7, Some 8], len = 4, head = 0\<rparr>"
    by (simp add: ring_eval)
  have c2: "contents \<lparr>buf = [Some (5::int), Some 6, Some 7, Some 8], len = 4, head = 0\<rparr>
      = [Some 5, Some 6, Some 7, Some 8]"
    by (simp add: contents_def cap_def eval_nat_numeral)
  from eviction [OF inv full, of "Some 5" "[Some 5, Some 6, Some 7, Some 8]"] show ?thesis
    by (simp only: inv full one c1 many c2 simp_thms)
qed

text \<open>
  Claim C3, as amended. \<^verbatim>\<open>New\<close> with a capacity below 1 fails with the error that carries
  the rejected capacity. With a capacity of at least 1 that \<^verbatim>\<open>make\<close> accepts it returns a
  ring with \<^verbatim>\<open>len\<close> 0, \<^verbatim>\<open>head\<close> 0 and a slice of that many \<^verbatim>\<open>nil\<close> slots, on which \<^verbatim>\<open>Len\<close>
  returns 0 and \<^verbatim>\<open>Peek\<close> and \<^verbatim>\<open>Extract\<close> both return \<^verbatim>\<open>nil, false\<close>. With a capacity beyond
  what \<^verbatim>\<open>make\<close> accepts it returns neither a ring nor an error: it panics.
\<close>

theorem New_capacity:
  "(c < 1 \<longrightarrow>
      (New maxlen c :: panic + (error + 'a Ring))
        = Inr (Inl (Errorf ''ring capacity must be > 0, got %d'' [c])))
   \<and> (1 \<le> c \<and> c \<le> maxlen \<longrightarrow>
      (\<exists>r :: 'a Ring. New maxlen c = Inr (Inr r) \<and> len r = 0 \<and> head r = 0
        \<and> buf r = replicate (nat c) None \<and> int (length (buf r)) = c
        \<and> Len r = (0, r) \<and> Peek r = Inr ((None, False), r) \<and> Extract r = Inr ((None, False), r)))
   \<and> (1 \<le> c \<and> maxlen < c \<longrightarrow>
      (New maxlen c :: panic + (error + 'a Ring)) = Inl MakesliceLenOutOfRange)"
proof (intro conjI impI)
  assume "c < 1"
  then show "(New maxlen c :: panic + (error + 'a Ring))
      = Inr (Inl (Errorf ''ring capacity must be > 0, got %d'' [c]))"
    by (simp add: New_def)
next
  assume "1 \<le> c \<and> c \<le> maxlen"
  then have c: "1 \<le> c" and m: "c \<le> maxlen" by simp_all
  let ?r = "\<lparr>buf = replicate (nat c) None, len = 0, head = 0\<rparr> :: 'a Ring"
  have "New maxlen c = Inr (Inr ?r)" by (rule New_ok(1) [OF c m])
  moreover have "int (length (buf ?r)) = c" using c by simp
  moreover have "Len ?r = (0, ?r)" by (simp add: Len_def)
  moreover have "Peek ?r = Inr ((None, False), ?r)" by (simp add: Peek_def)
  moreover have "Extract ?r = Inr ((None, False), ?r)" by (simp add: Extract_def extract_ring_def)
  ultimately show "\<exists>r :: 'a Ring. New maxlen c = Inr (Inr r) \<and> len r = 0 \<and> head r = 0
        \<and> buf r = replicate (nat c) None \<and> int (length (buf r)) = c
        \<and> Len r = (0, r) \<and> Peek r = Inr ((None, False), r) \<and> Extract r = Inr ((None, False), r)"
    by (intro exI [of _ ?r]) simp
next
  assume "1 \<le> c \<and> maxlen < c"
  then show "(New maxlen c :: panic + (error + 'a Ring)) = Inl MakesliceLenOutOfRange"
    by (simp add: New_def make_slice_def)
qed

theorem New_capacity_witness:
  "(New (2 ^ 44) 0 :: panic + (error + int Ring))
      = Inr (Inl (Errorf ''ring capacity must be > 0, got %d'' [0]))
   \<and> (New (2 ^ 44) (- 42) :: panic + (error + int Ring))
      = Inr (Inl (Errorf ''ring capacity must be > 0, got %d'' [- 42]))
   \<and> (New (2 ^ 44) 2 :: panic + (error + int Ring))
      = Inr (Inr \<lparr>buf = [None, None], len = 0, head = 0\<rparr>)
   \<and> Peek \<lparr>buf = [None, None :: int iface], len = 0, head = 0\<rparr>
      = Inr ((None, False), \<lparr>buf = [None, None], len = 0, head = 0\<rparr>)
   \<and> Extract \<lparr>buf = [None, None :: int iface], len = 0, head = 0\<rparr>
      = Inr ((None, False), \<lparr>buf = [None, None], len = 0, head = 0\<rparr>)
   \<and> (New (2 ^ 44) (2 ^ 44 + 1) :: panic + (error + int Ring)) = Inl MakesliceLenOutOfRange"
proof -
  have e0: "(New (2 ^ 44) 0 :: panic + (error + int Ring))
      = Inr (Inl (Errorf ''ring capacity must be > 0, got %d'' [0]))"
    by (simp add: New_def)
  have e1: "(New (2 ^ 44) (- 42) :: panic + (error + int Ring))
      = Inr (Inl (Errorf ''ring capacity must be > 0, got %d'' [- 42]))"
    by (simp add: New_def)
  have ok: "(New (2 ^ 44) 2 :: panic + (error + int Ring))
      = Inr (Inr \<lparr>buf = [None, None], len = 0, head = 0\<rparr>)"
    by (simp add: New_def make_slice_def eval_nat_numeral)
  have pk: "Peek \<lparr>buf = [None, None :: int iface], len = 0, head = 0\<rparr>
      = Inr ((None, False), \<lparr>buf = [None, None], len = 0, head = 0\<rparr>)"
    by (simp add: Peek_def)
  have ex: "Extract \<lparr>buf = [None, None :: int iface], len = 0, head = 0\<rparr>
      = Inr ((None, False), \<lparr>buf = [None, None], len = 0, head = 0\<rparr>)"
    by (simp add: Extract_def extract_ring_def)
  have big: "(New (2 ^ 44) (2 ^ 44 + 1) :: panic + (error + int Ring)) = Inl MakesliceLenOutOfRange"
    by (simp add: New_def make_slice_def)
  from New_capacity [of 0 "2 ^ 44", where 'a = int] New_capacity [of "- 42" "2 ^ 44", where 'a = int]
    New_capacity [of 2 "2 ^ 44", where 'a = int]
    New_capacity [of "2 ^ 44 + 1" "2 ^ 44", where 'a = int]
  show ?thesis
    by (simp only: e0 e1 ok pk ex big simp_thms)
qed

text \<open>
  Claim C3 as it was written, that \<^verbatim>\<open>New\<close> succeeds for every capacity of at least 1,
  fails at the capacity \<open>2 ^ 61\<close>, where \<^verbatim>\<open>make\<close> panics (here with the limit of 64-bit
  Linux, \<open>2 ^ 44\<close> interface values; sixteen times \<open>2 ^ 61\<close> bytes is beyond the range of
  a 64-bit size in any case).
\<close>

theorem New_capacity_counterexample:
  "(1::int) \<le> 2 ^ 61
   \<and> (New (2 ^ 44) (2 ^ 61) :: panic + (error + int Ring)) = Inl MakesliceLenOutOfRange"
  by (simp add: New_def make_slice_def)

text \<open>
  Claim C4. After any sequence of calls of \<^verbatim>\<open>Insert\<close>, \<^verbatim>\<open>Extract\<close>, \<^verbatim>\<open>Peek\<close> and \<^verbatim>\<open>Len\<close>
  on a ring that \<^verbatim>\<open>New\<close> returned, no call has panicked, the capacity is the one given to
  \<^verbatim>\<open>New\<close>, \<^verbatim>\<open>len\<close> is between 0 and the capacity, \<^verbatim>\<open>head\<close> is at least 0 and below the
  capacity, and the \<^verbatim>\<open>len\<close> slots from \<^verbatim>\<open>head\<close> on, wrapping modulo the capacity, hold
  exactly the live elements of the specification, from the oldest to the newest.
\<close>

theorem reachable_invariant:
  assumes "New maxlen c = Inr (Inr r0)"
  shows "\<exists>r. do_calls r0 cs = Inr r \<and> cap r = c
    \<and> 0 \<le> len r \<and> len r \<le> cap r \<and> 0 \<le> head r \<and> head r < cap r
    \<and> contents r = spec_live_all (nat c) cs"
proof -
  have c: "1 \<le> c" and r0: "r0 = \<lparr>buf = replicate (nat c) None, len = 0, head = 0\<rparr>"
    using assms by (auto simp: New_def make_slice_def split: if_splits)
  have inv: "ring_inv r0" and cap: "cap r0 = c" and emp: "contents r0 = []"
    unfolding r0 by (rule New_ok [OF c])+
  from do_calls_ok [OF inv, of cs] show ?thesis
    unfolding cap emp spec_live_all_def by (auto simp: ring_inv_def)
qed

theorem reachable_invariant_witness:
  "(New (2 ^ 44) 2 :: panic + (error + int Ring)) = Inr (Inr \<lparr>buf = [None, None], len = 0, head = 0\<rparr>)
   \<and> do_calls \<lparr>buf = [None, None], len = 0, head = 0\<rparr>
        [CallInsert (Some (1::int)), CallInsert (Some 2), CallInsert (Some 3),
         CallPeek, CallExtract, CallLen]
      = Inr \<lparr>buf = [Some 3, Some 2], len = 1, head = 0\<rparr>
   \<and> contents \<lparr>buf = [Some (3::int), Some 2], len = 1, head = 0\<rparr> = [Some 3]
   \<and> spec_live_all 2
        [CallInsert (Some (1::int)), CallInsert (Some 2), CallInsert (Some 3),
         CallPeek, CallExtract, CallLen]
      = [Some 3]"
proof -
  let ?cs = "[CallInsert (Some (1::int)), CallInsert (Some 2), CallInsert (Some 3),
         CallPeek, CallExtract, CallLen]"
  have new: "(New (2 ^ 44) 2 :: panic + (error + int Ring)) = Inr (Inr \<lparr>buf = [None, None], len = 0, head = 0\<rparr>)"
    by (simp add: New_def make_slice_def eval_nat_numeral)
  have run: "do_calls \<lparr>buf = [None, None], len = 0, head = 0\<rparr> ?cs
      = Inr \<lparr>buf = [Some 3, Some 2], len = 1, head = 0\<rparr>"
    by (simp add: ring_eval)
  have c: "contents \<lparr>buf = [Some (3::int), Some 2], len = 1, head = 0\<rparr> = [Some 3]"
    by (simp add: contents_def cap_def)
  have sp: "spec_live_all 2 ?cs = [Some 3]"
    by (simp add: spec_live_all_def)
  from reachable_invariant [OF new, of ?cs] show ?thesis
    by (simp only: new run c sp simp_thms)
qed

text \<open>
  Claim C5. On a full well-formed ring \<^verbatim>\<open>Insert\<close> is the unexported \<^verbatim>\<open>extract\<close>, whose result
  is dropped, followed by the write at the tail of the ring that \<^verbatim>\<open>extract\<close> left; \<^verbatim>\<open>len\<close>
  stays at the capacity and \<^verbatim>\<open>head\<close> advances by one modulo the capacity. On a well-formed
  ring that is not full \<^verbatim>\<open>Insert\<close> adds one to \<^verbatim>\<open>len\<close> and leaves \<^verbatim>\<open>head\<close> as it was.
\<close>

theorem Insert_net_effect:
  assumes "ring_inv r"
  shows "(len r = cap r \<longrightarrow>
      (\<exists>x r1 t r'. extract_ring r = Inr ((x, True), r1) \<and> tail r1 = Inr t
         \<and> Insert r v = Inr r' \<and> r' = r1\<lparr>buf := (buf r1)[nat t := v], len := len r1 + 1\<rparr>
         \<and> cap r' = cap r \<and> len r' = cap r \<and> head r' = (head r + 1) mod cap r))
    \<and> (len r \<noteq> cap r \<longrightarrow>
      (\<exists>r'. Insert r v = Inr r' \<and> cap r' = cap r \<and> len r' = len r + 1 \<and> head r' = head r))"
proof (intro conjI impI)
  assume full: "len r = cap r"
  let ?r1 = "r\<lparr>head := (head r + 1) mod cap r, len := len r - 1\<rparr>"
  let ?t = "(head ?r1 + len ?r1) mod cap ?r1"
  let ?r' = "?r1\<lparr>buf := (buf ?r1)[nat ?t := v], len := len ?r1 + 1\<rparr>"
  have nz: "len r \<noteq> 0" using full ring_inv_pos [OF assms] by simp
  have inv1: "ring_inv ?r1" by (rule ring_inv_extract [OF assms nz])
  have nf: "len ?r1 \<noteq> cap ?r1" using full by simp
  have "extract_ring r = Inr ((buf r ! nat (head r), True), ?r1)"
    by (rule extract_ring_nonempty [OF assms nz])
  moreover have "tail ?r1 = Inr ?t" by (rule tail_mod [OF inv1])
  moreover have "Insert r v = Inr ?r'"
    using Insert_full_evicts [OF assms full, of v] Insert_not_full [OF inv1 nf, of v] by simp
  moreover have "cap ?r' = cap r" by (simp add: cap_def)
  moreover have "len ?r' = cap r" using full by simp
  moreover have "head ?r' = (head r + 1) mod cap r" by simp
  ultimately show "\<exists>x r1 t r'. extract_ring r = Inr ((x, True), r1) \<and> tail r1 = Inr t
         \<and> Insert r v = Inr r' \<and> r' = r1\<lparr>buf := (buf r1)[nat t := v], len := len r1 + 1\<rparr>
         \<and> cap r' = cap r \<and> len r' = cap r \<and> head r' = (head r + 1) mod cap r"
    by blast
next
  assume nf: "len r \<noteq> cap r"
  show "\<exists>r'. Insert r v = Inr r' \<and> cap r' = cap r \<and> len r' = len r + 1 \<and> head r' = head r"
    by (simp add: Insert_not_full [OF assms nf] cap_def)
qed

theorem Insert_net_effect_witness:
  "ring_inv \<lparr>buf = [Some (1::int), Some 2], len = 2, head = 1\<rparr>
   \<and> extract_ring \<lparr>buf = [Some (1::int), Some 2], len = 2, head = 1\<rparr>
      = Inr ((Some 2, True), \<lparr>buf = [Some 1, Some 2], len = 1, head = 0\<rparr>)
   \<and> tail \<lparr>buf = [Some (1::int), Some 2], len = 1, head = 0\<rparr> = Inr 1
   \<and> Insert \<lparr>buf = [Some (1::int), Some 2], len = 2, head = 1\<rparr> (Some 3)
      = Inr \<lparr>buf = [Some 1, Some 3], len = 2, head = 0\<rparr>
   \<and> ring_inv \<lparr>buf = [Some (1::int), None], len = 1, head = 0\<rparr>
   \<and> Insert \<lparr>buf = [Some (1::int), None], len = 1, head = 0\<rparr> (Some 3)
      = Inr \<lparr>buf = [Some 1, Some 3], len = 2, head = 0\<rparr>"
proof -
  let ?f = "\<lparr>buf = [Some (1::int), Some 2], len = 2, head = 1\<rparr>"
  let ?p = "\<lparr>buf = [Some (1::int), None], len = 1, head = 0\<rparr>"
  have invf: "ring_inv ?f" and invp: "ring_inv ?p" by (simp_all add: ring_inv_def cap_def)
  have ex: "extract_ring ?f = Inr ((Some 2, True), \<lparr>buf = [Some 1, Some 2], len = 1, head = 0\<rparr>)"
    by (simp add: ring_eval)
  have tl: "tail \<lparr>buf = [Some (1::int), Some 2], len = 1, head = 0\<rparr> = Inr 1"
    by (simp add: ring_eval)
  have insf: "Insert ?f (Some 3) = Inr \<lparr>buf = [Some 1, Some 3], len = 2, head = 0\<rparr>"
    by (simp add: ring_eval)
  have insp: "Insert ?p (Some 3) = Inr \<lparr>buf = [Some 1, Some 3], len = 2, head = 0\<rparr>"
    by (simp add: ring_eval)
  from Insert_net_effect [OF invf, of "Some 3"] Insert_net_effect [OF invp, of "Some 3"]
  show ?thesis
    by (simp only: invf invp ex tl insf insp simp_thms)
qed

text \<open>
  Claim C6. On a ring with \<^verbatim>\<open>len\<close> 0, \<^verbatim>\<open>Extract\<close> (and the unexported \<^verbatim>\<open>extract\<close>) and
  \<^verbatim>\<open>Peek\<close> return with the flag false and leave every field of the ring as it was, so that
  \<^verbatim>\<open>Len\<close> still returns 0. This holds for every such state, the zero value of \<^verbatim>\<open>Ring\<close>
  included.
\<close>

theorem empty_ring_not_found:
  assumes "len r = 0"
  shows "Extract r = Inr ((None, False), r) \<and> extract_ring r = Inr ((None, False), r)
    \<and> Peek r = Inr ((None, False), r) \<and> Len r = (0, r)"
  using assms by (simp add: Extract_def extract_ring_def Peek_def Len_def)

theorem empty_ring_not_found_witness:
  "len \<lparr>buf = [Some (7::nat), None], len = 0, head = 1\<rparr> = 0
   \<and> Extract \<lparr>buf = [Some (7::nat), None], len = 0, head = 1\<rparr>
       = Inr ((None, False), \<lparr>buf = [Some 7, None], len = 0, head = 1\<rparr>)
   \<and> Peek \<lparr>buf = [Some (7::nat), None], len = 0, head = 1\<rparr>
       = Inr ((None, False), \<lparr>buf = [Some 7, None], len = 0, head = 1\<rparr>)
   \<and> Len \<lparr>buf = [Some (7::nat), None], len = 0, head = 1\<rparr>
       = (0, \<lparr>buf = [Some 7, None], len = 0, head = 1\<rparr>)"
  using empty_ring_not_found [of "\<lparr>buf = [Some (7::nat), None], len = 0, head = 1\<rparr>"]
  by simp

text \<open>
  Claim C7. On a well-formed ring \<^verbatim>\<open>Peek\<close> returns, and in every state in which \<^verbatim>\<open>Peek\<close>
  returns, it leaves the ring as it was, a second call right after it returns the same
  pair and the same ring, and \<^verbatim>\<open>Len\<close> returns what it returned before.
\<close>

theorem Peek_pure:
  "(ring_inv r \<longrightarrow> (\<exists>res. Peek r = Inr (res, r)))
   \<and> (\<forall>res r1. Peek r = Inr (res, r1) \<longrightarrow>
         r1 = r \<and> Peek r1 = Inr (res, r1) \<and> fst (Len r1) = fst (Len r))"
proof (rule conjI)
  show "ring_inv r \<longrightarrow> (\<exists>res. Peek r = Inr (res, r))"
    by (simp add: Peek_ok)
next
  have "r1 = r \<and> Peek r1 = Inr (res, r1) \<and> fst (Len r1) = fst (Len r)"
    if p: "Peek r = Inr (res, r1)" for res r1
  proof -
    from p have same: "r1 = r"
      by (auto simp: Peek_def split: if_splits sum.splits)
    show ?thesis
      using p unfolding same by simp
  qed
  then show "\<forall>res r1. Peek r = Inr (res, r1) \<longrightarrow>
         r1 = r \<and> Peek r1 = Inr (res, r1) \<and> fst (Len r1) = fst (Len r)"
    by blast
qed

theorem Peek_pure_witness:
  "ring_inv \<lparr>buf = [Some (1::int), Some 2, Some 3], len = 2, head = 2\<rparr>
   \<and> Peek \<lparr>buf = [Some (1::int), Some 2, Some 3], len = 2, head = 2\<rparr>
      = Inr ((Some 3, True), \<lparr>buf = [Some 1, Some 2, Some 3], len = 2, head = 2\<rparr>)
   \<and> fst (Len \<lparr>buf = [Some (1::int), Some 2, Some 3], len = 2, head = 2\<rparr>) = 2"
proof -
  let ?r = "\<lparr>buf = [Some (1::int), Some 2, Some 3], len = 2, head = 2\<rparr>"
  have inv: "ring_inv ?r" by (simp add: ring_inv_def cap_def)
  have pk: "Peek ?r = Inr ((Some 3, True), ?r)" by (simp add: ring_eval)
  have ln: "fst (Len ?r) = 2" by (simp add: Len_def)
  from Peek_pure [of ?r] show ?thesis
    by (simp only: inv pk ln simp_thms)
qed

text \<open>
  Claim C9. On a well-formed ring \<^verbatim>\<open>Insert\<close> writes the slot of index
  \<open>(head + len) mod cap\<close>, computed on the ring before the call, and no other slot;
  \<^verbatim>\<open>Extract\<close> and \<^verbatim>\<open>Peek\<close> write no slot, so that the element \<^verbatim>\<open>Extract\<close> returns is still
  in its slot afterwards.
\<close>

theorem storage_frame:
  assumes "ring_inv r"
  shows "(\<exists>r' t. Insert r v = Inr r' \<and> t = nat ((head r + len r) mod cap r)
        \<and> t < length (buf r) \<and> buf r' = (buf r)[t := v]
        \<and> length (buf r') = length (buf r) \<and> buf r' ! t = v
        \<and> (\<forall>i. i < length (buf r) \<and> i \<noteq> t \<longrightarrow> buf r' ! i = buf r ! i))
    \<and> (\<exists>res r'. Extract r = Inr (res, r') \<and> buf r' = buf r
        \<and> (len r \<noteq> 0 \<longrightarrow> res = (buf r' ! nat (head r), True)))
    \<and> (\<exists>res r'. Peek r = Inr (res, r') \<and> buf r' = buf r)"
proof (intro conjI)
  let ?t = "nat ((head r + len r) mod cap r)"
  have t: "?t < length (buf r)"
    using ring_inv_pos [OF assms] by (simp add: cap_def nat_less_iff)
  from Insert_writes_tail [OF assms, of v] obtain r' where
    r': "Insert r v = Inr r'" "buf r' = (buf r)[?t := v]"
    by blast
  have "length (buf r') = length (buf r)" "buf r' ! ?t = v"
    "\<forall>i. i < length (buf r) \<and> i \<noteq> ?t \<longrightarrow> buf r' ! i = buf r ! i"
    using t by (simp_all add: r'(2))
  then show "\<exists>r' t. Insert r v = Inr r' \<and> t = nat ((head r + len r) mod cap r)
        \<and> t < length (buf r) \<and> buf r' = (buf r)[t := v]
        \<and> length (buf r') = length (buf r) \<and> buf r' ! t = v
        \<and> (\<forall>i. i < length (buf r) \<and> i \<noteq> t \<longrightarrow> buf r' ! i = buf r ! i)"
    using r' t by blast
next
  show "\<exists>res r'. Extract r = Inr (res, r') \<and> buf r' = buf r
        \<and> (len r \<noteq> 0 \<longrightarrow> res = (buf r' ! nat (head r), True))"
  proof (cases "len r = 0")
    case True
    then show ?thesis by (auto simp: Extract_def extract_ring_def)
  next
    case False
    show ?thesis
      by (simp add: Extract_def extract_ring_nonempty [OF assms False])
  qed
next
  show "\<exists>res r'. Peek r = Inr (res, r') \<and> buf r' = buf r"
    by (simp add: Peek_ok [OF assms])
qed

theorem storage_frame_witness:
  "ring_inv \<lparr>buf = [Some (1::int), Some 2, Some 3], len = 2, head = 2\<rparr>
   \<and> Insert \<lparr>buf = [Some (1::int), Some 2, Some 3], len = 2, head = 2\<rparr> (Some 4)
      = Inr \<lparr>buf = [Some 1, Some 4, Some 3], len = 3, head = 2\<rparr>
   \<and> Extract \<lparr>buf = [Some (1::int), Some 2, Some 3], len = 2, head = 2\<rparr>
      = Inr ((Some 3, True), \<lparr>buf = [Some 1, Some 2, Some 3], len = 1, head = 0\<rparr>)
   \<and> Peek \<lparr>buf = [Some (1::int), Some 2, Some 3], len = 2, head = 2\<rparr>
      = Inr ((Some 3, True), \<lparr>buf = [Some 1, Some 2, Some 3], len = 2, head = 2\<rparr>)"
proof -
  let ?r = "\<lparr>buf = [Some (1::int), Some 2, Some 3], len = 2, head = 2\<rparr>"
  have inv: "ring_inv ?r" by (simp add: ring_inv_def cap_def)
  have ins: "Insert ?r (Some 4) = Inr \<lparr>buf = [Some 1, Some 4, Some 3], len = 3, head = 2\<rparr>"
    by (simp add: ring_eval)
  have ex: "Extract ?r = Inr ((Some 3, True), \<lparr>buf = [Some 1, Some 2, Some 3], len = 1, head = 0\<rparr>)"
    by (simp add: ring_eval)
  have pk: "Peek ?r = Inr ((Some 3, True), ?r)"
    by (simp add: ring_eval)
  from storage_frame [OF inv, of "Some 4"] show ?thesis
    by (simp only: inv ins ex pk simp_thms)
qed

text \<open>
  Claim C10. On a ring with \<^verbatim>\<open>len\<close> 0, the element that \<^verbatim>\<open>Extract\<close> and \<^verbatim>\<open>Peek\<close> return
  beside the false flag is \<^verbatim>\<open>nil\<close>.
\<close>

theorem not_found_is_nil:
  assumes "len r = 0"
  shows "map_sum id (fst \<circ> fst) (Extract r) = Inr None
    \<and> map_sum id (fst \<circ> fst) (Peek r) = Inr None"
  using assms by (simp add: Extract_def extract_ring_def Peek_def)

theorem not_found_is_nil_witness:
  "len \<lparr>buf = [Some (7::nat), Some 8], len = 0, head = 0\<rparr> = 0
   \<and> map_sum id (fst \<circ> fst) (Extract \<lparr>buf = [Some (7::nat), Some 8], len = 0, head = 0\<rparr>) = Inr None
   \<and> map_sum id (fst \<circ> fst) (Peek \<lparr>buf = [Some (7::nat), Some 8], len = 0, head = 0\<rparr>) = Inr None"
  using not_found_is_nil [of "\<lparr>buf = [Some (7::nat), Some 8], len = 0, head = 0\<rparr>"]
  by simp

end
